theory Spec2Isabelle
  imports Complex_Main "HOL-Library.Log_Nat"
begin

section \<open>The breakpoint set of the code editor (src/src/codeeditor.cpp)\<close>

text \<open>
  The editor keeps its breakpoints in \<^verbatim>\<open>m_breakpoints\<close>, a \<^verbatim>\<open>std::set<int>\<close> of block
  numbers. An ordered set is modelled by the list of its elements in iteration order:
  strictly ascending, hence without duplicates. \<open>set_inv\<close> is that representation
  invariant; every operation below preserves it (lemmas \<open>set_inv_*\<close>).

  C++ \<^verbatim>\<open>int\<close> values are modelled by \<open>int\<close>. The integer arithmetic of the modelled code
  is \<^verbatim>\<open>blockCount() - 1\<close>, \<^verbatim>\<open>index--\<close> under \<^verbatim>\<open>index > 0\<close>, \<^verbatim>\<open>++blockNumber\<close> below the block
  count and the sum of two pixel coordinates in the painter; the conversion of a
  \<^verbatim>\<open>qreal\<close> to \<^verbatim>\<open>int\<close> is modelled with its 32-bit range (\<open>to_int\<close> below).
\<close>

subsection \<open>std::set<int>\<close>

definition set_inv :: "int list \<Rightarrow> bool" where
  "set_inv xs = sorted_wrt (<) xs"

text \<open>\<^verbatim>\<open>find\<close> returns an iterator: \<open>Some x\<close> points at the element, \<open>None\<close> is \<^verbatim>\<open>end()\<close>.\<close>

definition set_find :: "int \<Rightarrow> int list \<Rightarrow> int option" where
  "set_find x xs = (if x \<in> set xs then Some x else None)"

text \<open>\<^verbatim>\<open>insert\<close> leaves the set alone when the key is already there.\<close>

definition set_insert :: "int \<Rightarrow> int list \<Rightarrow> int list" where
  "set_insert x xs = (if x \<in> set xs then xs else insort x xs)"

text \<open>\<^verbatim>\<open>erase(it)\<close> for an iterator that points at \<open>x\<close>; the source only calls it after
  comparing the iterator with \<^verbatim>\<open>end()\<close>.\<close>

definition set_erase :: "int \<Rightarrow> int list \<Rightarrow> int list" where
  "set_erase x xs = remove1 x xs"

text \<open>The membership test of the painter, line 182: \<^verbatim>\<open>m_breakpoints.find(n) != m_breakpoints.end()\<close>.\<close>

definition contains :: "int \<Rightarrow> int list \<Rightarrow> bool" where
  "contains x xs = (set_find x xs \<noteq> None)"

subsection \<open>The document as the editor sees it\<close>

text \<open>
  A \<^verbatim>\<open>QTextBlock\<close> is a handle on one block of the document, or the invalid block.
  Following the Qt documentation: \<^verbatim>\<open>blockNumber()\<close> of the invalid block is -1,
  \<^verbatim>\<open>next()\<close> of the last block and of the invalid block is the invalid block, and the
  bounding rectangle of the invalid block is empty.
\<close>

datatype QTextBlock = Block int | InvalidBlock

fun isValid :: "QTextBlock \<Rightarrow> bool" where
  "isValid (Block i) = True"
| "isValid InvalidBlock = False"

fun blockNumber :: "QTextBlock \<Rightarrow> int" where
  "blockNumber (Block i) = i"
| "blockNumber InvalidBlock = - 1"

text \<open>
  The state of the widget: the breakpoint set, the document's block count, and the
  geometry the two modelled event handlers read. \<open>contentOffsetY\<close>, \<open>blockHeight\<close> and
  \<open>blockTop\<close> are finite \<^verbatim>\<open>qreal\<close>s (doubles) in the source; a field holds the rational
  number the double stands for. \<open>repaints\<close> counts the calls of \<^verbatim>\<open>repaint()\<close>.
\<close>

record CodeEditor =
  m_breakpoints :: "int list"
  blockCount :: int
  firstVisibleLine :: int
  contentOffsetY :: rat
  blockHeight :: "int \<Rightarrow> rat"
  blockTop :: "int \<Rightarrow> rat"
  blockVisible :: "int \<Rightarrow> bool"
  repaints :: nat

definition findBlockByNumber :: "CodeEditor \<Rightarrow> int \<Rightarrow> QTextBlock" where
  "findBlockByNumber e i = (if 0 \<le> i \<and> i < blockCount e then Block i else InvalidBlock)"

definition firstVisibleBlock :: "CodeEditor \<Rightarrow> QTextBlock" where
  "firstVisibleBlock e = findBlockByNumber e (firstVisibleLine e)"

definition next_block :: "CodeEditor \<Rightarrow> QTextBlock \<Rightarrow> QTextBlock" where
  "next_block e b =
     (case b of
        Block i \<Rightarrow> if i + 1 < blockCount e then Block (i + 1) else InvalidBlock
      | InvalidBlock \<Rightarrow> InvalidBlock)"

definition blockBoundingRectHeight :: "CodeEditor \<Rightarrow> QTextBlock \<Rightarrow> rat" where
  "blockBoundingRectHeight e b = (case b of Block i \<Rightarrow> blockHeight e i | InvalidBlock \<Rightarrow> 0)"

definition blockGeometryTop :: "CodeEditor \<Rightarrow> QTextBlock \<Rightarrow> rat" where
  "blockGeometryTop e b = (case b of Block i \<Rightarrow> blockTop e i | InvalidBlock \<Rightarrow> 0)"

definition isVisible :: "CodeEditor \<Rightarrow> QTextBlock \<Rightarrow> bool" where
  "isVisible e b = (case b of Block i \<Rightarrow> blockVisible e i | InvalidBlock \<Rightarrow> False)"

subsection \<open>qreal arithmetic and the conversion to int\<close>

text \<open>
  \<^verbatim>\<open>qreal\<close> is \<^verbatim>\<open>double\<close>, IEEE 754 binary64. A finite double is modelled by the rational
  it stands for; \<open>NotFinite\<close> stands for the infinities and for not-a-number. The result
  of an arithmetic operation is the exact result rounded to the nearest double, ties to
  the even significand: \<open>to_double\<close>. A double has a significand of 53 bits, so the
  spacing of the doubles around \<open>q\<close> is \<open>2 powi (ilog2 q - 52)\<close>, and never less than
  \<open>2 powi (- 1074)\<close>; a result that rounds to \<open>2 powi 1024\<close> or beyond is infinite.
\<close>

datatype qreal = Finite rat | NotFinite

definition round_half_even :: "rat \<Rightarrow> int" where
  "round_half_even x =
     (let f = \<lfloor>x\<rfloor>; r = x - of_int f
      in if r < 1 / 2 then f else if 1 / 2 < r then f + 1 else if even f then f else f + 1)"

text \<open>\<open>ilog2 q\<close> is the exponent \<open>e\<close> with \<open>2 powi e \<le> \<bar>q\<bar> < 2 powi (e + 1)\<close>, for \<open>q \<noteq> 0\<close>
  (lemma \<open>ilog2_bounds\<close>).\<close>

definition ilog2 :: "rat \<Rightarrow> int" where
  "ilog2 q =
     (if 1 \<le> \<bar>q\<bar> then int (floorlog 2 (nat \<lfloor>\<bar>q\<bar>\<rfloor>)) - 1
      else - int (floorlog 2 (nat (\<lceil>1 / \<bar>q\<bar>\<rceil> - 1))))"

definition to_double :: "rat \<Rightarrow> qreal" where
  "to_double q =
     (if q = 0 then Finite 0
      else let p = max (ilog2 q - 52) (- 1074);
               r = of_int (round_half_even (q / 2 powi p)) * 2 powi p
           in if 2 powi 1024 \<le> \<bar>r\<bar> then NotFinite else Finite r)"

text \<open>Sum and difference of two finite doubles, and the quotient of a double by a finite
  double. A quotient by zero is an infinity or not-a-number; so is the quotient of an
  infinity by a finite double.\<close>

definition qreal_add :: "rat \<Rightarrow> rat \<Rightarrow> qreal" where
  "qreal_add a b = to_double (a + b)"

definition qreal_sub :: "rat \<Rightarrow> rat \<Rightarrow> qreal" where
  "qreal_sub a b = to_double (a - b)"

definition qreal_div :: "qreal \<Rightarrow> rat \<Rightarrow> qreal" where
  "qreal_div a b =
     (case a of
        NotFinite \<Rightarrow> NotFinite
      | Finite x \<Rightarrow> if b = 0 then NotFinite else to_double (x / b))"

definition INT_MIN :: int where
  "INT_MIN = - (2 ^ 31)"

definition INT_MAX :: int where
  "INT_MAX = 2 ^ 31 - 1"

definition int32 :: "int \<Rightarrow> bool" where
  "int32 x = (INT_MIN \<le> x \<and> x \<le> INT_MAX)"

text \<open>Dropping the fraction of a rational (rounding towards zero).\<close>

definition c_trunc :: "rat \<Rightarrow> int" where
  "c_trunc q = (if 0 \<le> q then \<lfloor>q\<rfloor> else \<lceil>q\<rceil>)"

text \<open>
  The conversion of a \<^verbatim>\<open>qreal\<close> to \<^verbatim>\<open>int\<close> drops the fraction. When the result does not fit
  in 32 bits, or the value is not finite, C++ leaves the conversion undefined; the model
  takes what the conversion instruction of x86-64 delivers then, which is \<open>INT_MIN\<close>.
\<close>

definition to_int :: "qreal \<Rightarrow> int" where
  "to_int a =
     (case a of
        NotFinite \<Rightarrow> INT_MIN
      | Finite q \<Rightarrow> if int32 (c_trunc q) then c_trunc q else INT_MIN)"

text \<open>Division of two \<^verbatim>\<open>int\<close>s in C++ rounds towards zero as well; used to state what
  the pixel-to-line mapping computes on whole-number geometry.\<close>

definition c_div :: "int \<Rightarrow> int \<Rightarrow> int" where
  "c_div a b = sgn a * sgn b * (\<bar>a\<bar> div \<bar>b\<bar>)"

definition repaint :: "CodeEditor \<Rightarrow> CodeEditor" where
  "repaint e = e\<lparr>repaints := Suc (repaints e)\<rparr>"

subsection \<open>updateSidebar, lines 87-106\<close>

text \<open>
  Lines 102-105: while the set is not empty and its greatest element exceeds
  \<^verbatim>\<open>blockCount() - 1\<close>, erase the greatest element.
\<close>

function removeStale :: "int \<Rightarrow> int list \<Rightarrow> int list" where
  "removeStale n xs =
     (if xs \<noteq> [] \<and> last xs > n - 1 then removeStale n (butlast xs) else xs)"
  by pat_completeness auto
termination
  by (relation "measure (\<lambda>(n, xs). length xs)") auto

text \<open>
  The calls before the loop scroll or update the two side bars and recompute the
  side bar width; they do not touch the fields modelled here.
\<close>

definition updateSidebar :: "CodeEditor \<Rightarrow> CodeEditor" where
  "updateSidebar e = e\<lparr>m_breakpoints := removeStale (blockCount e) (m_breakpoints e)\<rparr>"

text \<open>The one-pass formulation of the specification: keep the elements below the new
  line count.\<close>

definition reconcile_spec :: "int \<Rightarrow> int list \<Rightarrow> int list" where
  "reconcile_spec n xs = filter (\<lambda>x. x < n) xs"

subsection \<open>breakpointClick, lines 196-233\<close>

text \<open>
  Lines 199-208. \<open>y\<close> is \<^verbatim>\<open>event->pos().y()\<close>, an \<^verbatim>\<open>int\<close> that the subtraction or addition
  converts to \<^verbatim>\<open>qreal\<close> without rounding. The quotient is a quotient of \<^verbatim>\<open>qreal\<close>s, converted
  to \<^verbatim>\<open>int\<close> by the assignment to \<^verbatim>\<open>index\<close>. \<^verbatim>\<open>document()->findBlockByLineNumber(0)\<close> is
  the block that holds the first line of the document, that is block number 0.
\<close>

definition clickIndex :: "CodeEditor \<Rightarrow> int \<Rightarrow> int" where
  "clickIndex e y =
     (let block = firstVisibleBlock e;
          height = blockBoundingRectHeight e block
      in if block = findBlockByNumber e 0
         then to_int (qreal_div (qreal_sub (of_int y) (contentOffsetY e)) height)
         else to_int (qreal_div (qreal_add (of_int y) (contentOffsetY e)) height))"

text \<open>Lines 210-213.\<close>

function walkBlocks :: "CodeEditor \<Rightarrow> int \<Rightarrow> QTextBlock \<Rightarrow> QTextBlock" where
  "walkBlocks e index block =
     (if index > 0 then walkBlocks e (index - 1) (next_block e block) else block)"
  by pat_completeness auto
termination
  by (relation "measure (\<lambda>(e, index, block). nat index)") auto

text \<open>The block that lines 199-213 arrive at.\<close>

definition clickedBlock :: "CodeEditor \<Rightarrow> int \<Rightarrow> QTextBlock" where
  "clickedBlock e y = walkBlocks e (clickIndex e y) (firstVisibleBlock e)"

text \<open>Lines 217-230: force state 1 sets, 2 unsets, anything else toggles.\<close>

definition setOrUnset :: "int \<Rightarrow> int \<Rightarrow> int list \<Rightarrow> int list" where
  "setOrUnset forceState n bps =
     (let brkptIter = set_find n bps
      in if forceState = 1 then set_insert n bps
         else if forceState = 2 then
           (if brkptIter \<noteq> None then set_erase n bps else bps)
         else
           (if brkptIter \<noteq> None then set_erase n bps else set_insert n bps))"

definition breakpointClick :: "int \<Rightarrow> int \<Rightarrow> CodeEditor \<Rightarrow> CodeEditor" where
  "breakpointClick y forceState e =
     (let block = clickedBlock e y;
          blockNo = blockNumber block
      in if isValid block
         then repaint (e\<lparr>m_breakpoints := setOrUnset forceState blockNo (m_breakpoints e)\<rparr>)
         else e)"

subsection \<open>clearBreakpoints\<close>

text \<open>Modelled from the spec: \<^verbatim>\<open>CodeEditor::clearBreakpoints\<close> is called on line 251 and
  defined in codeeditor.h, which is not among the sources. The specification says of
  \<^verbatim>\<open>clear()\<close> that it empties the set.\<close>

definition clearBreakpoints :: "CodeEditor \<Rightarrow> CodeEditor" where
  "clearBreakpoints e = e\<lparr>m_breakpoints := []\<rparr>"

subsection \<open>breakpointAreaPaintEvent, lines 162-194\<close>

text \<open>
  \<open>rtop\<close> and \<open>rbottom\<close> are \<^verbatim>\<open>event->rect().top()\<close> and \<^verbatim>\<open>event->rect().bottom()\<close>;
  \<open>ytop\<close> and \<open>ybottom\<close> are the locals \<^verbatim>\<open>top\<close> and \<^verbatim>\<open>bottom\<close>. The result is the list of
  the \<open>ytop\<close> coordinates at which the breakpoint pixmap is drawn, with the editor as
  the handler leaves it.
\<close>

function paintLoop ::
  "int \<Rightarrow> int \<Rightarrow> QTextBlock \<Rightarrow> int \<Rightarrow> int \<Rightarrow> int \<Rightarrow> int list \<Rightarrow> CodeEditor
   \<Rightarrow> int list \<times> CodeEditor" where
  "paintLoop rtop rbottom block blockNo ytop ybottom drawn e =
     (if isValid block \<and> ytop \<le> rbottom then
        let drawn' =
              (if isVisible e block \<and> ybottom \<ge> rtop
               then (if set_find blockNo (m_breakpoints e) \<noteq> None
                     then drawn @ [ytop] else drawn)
               else drawn);
            block' = next_block e block;
            ytop' = ybottom;
            ybottom' = ytop' + to_int (Finite (blockBoundingRectHeight e block'))
        in paintLoop rtop rbottom block' (blockNo + 1) ytop' ybottom' drawn' e
      else (drawn, e))"
  by pat_completeness auto
termination
proof (relation "measure (\<lambda>(rtop, rbottom, block, blockNo, ytop, ybottom, drawn, e).
         case block of Block i \<Rightarrow> Suc (nat (blockCount e - i)) | InvalidBlock \<Rightarrow> 0)")
qed (auto simp: next_block_def split: QTextBlock.splits)

definition breakpointAreaPaintEvent :: "int \<Rightarrow> int \<Rightarrow> CodeEditor \<Rightarrow> int list \<times> CodeEditor" where
  "breakpointAreaPaintEvent rtop rbottom e =
     (let block = firstVisibleBlock e;
          blockNo = blockNumber block;
          ytop = to_int (qreal_add (blockGeometryTop e block) (contentOffsetY e));
          ybottom = ytop + to_int (Finite (blockBoundingRectHeight e block))
      in paintLoop rtop rbottom block blockNo ytop ybottom [] e)"

subsection \<open>The range invariant of the specification\<close>

definition in_range :: "int \<Rightarrow> int list \<Rightarrow> bool" where
  "in_range n xs = list_all (\<lambda>x. 0 \<le> x \<and> x \<le> n - 1) xs"

subsection \<open>Editors for the scenarios\<close>

text \<open>An editor with the given breakpoints, block count, first visible line and content
  offset, whose blocks are all visible and all of height \<open>h\<close>.\<close>

definition editorWith :: "int list \<Rightarrow> int \<Rightarrow> int \<Rightarrow> rat \<Rightarrow> rat \<Rightarrow> CodeEditor" where
  "editorWith bps n first off h =
     \<lparr>m_breakpoints = bps, blockCount = n, firstVisibleLine = first, contentOffsetY = off,
      blockHeight = (\<lambda>i. h), blockTop = (\<lambda>i. of_int i * h), blockVisible = (\<lambda>i. True),
      repaints = 0\<rparr>"

section \<open>Properties\<close>

subsection \<open>Auxiliary facts\<close>

declare removeStale.simps [simp del]
declare walkBlocks.simps [simp del]
declare paintLoop.simps [simp del]

lemma removeStale_Nil: "removeStale n [] = []"
  by (subst removeStale.simps) simp

lemma removeStale_snoc:
  "removeStale n (xs @ [x]) = (if x > n - 1 then removeStale n xs else xs @ [x])"
  by (subst removeStale.simps) simp

lemma set_inv_snoc: "set_inv (xs @ [x]) \<longleftrightarrow> set_inv xs \<and> (\<forall>y\<in>set xs. y < x)"
  by (auto simp: set_inv_def sorted_wrt_append)

lemma removeStale_filter:
  "set_inv xs \<Longrightarrow> removeStale n xs = filter (\<lambda>x. x < n) xs"
proof (induction xs rule: rev_induct)
  case Nil
  show ?case by (simp add: removeStale_Nil)
next
  case (snoc x xs)
  from snoc.prems have inv: "set_inv xs" and below: "\<forall>y\<in>set xs. y < x"
    by (simp_all add: set_inv_snoc)
  show ?case
  proof (cases "x > n - 1")
    case True
    with snoc.IH [OF inv] show ?thesis by (simp add: removeStale_snoc)
  next
    case False
    with below have "\<forall>y\<in>set xs. y < n" by auto
    then have "filter (\<lambda>x. x < n) xs = xs" by (simp add: filter_id_conv)
    with False show ?thesis by (simp add: removeStale_snoc)
  qed
qed

lemma removeStale_id: "\<forall>x\<in>set xs. x < n \<Longrightarrow> removeStale n xs = xs"
proof -
  assume below: "\<forall>x\<in>set xs. x < n"
  have "\<not> (xs \<noteq> [] \<and> last xs > n - 1)"
  proof
    assume a: "xs \<noteq> [] \<and> last xs > n - 1"
    then have "last xs \<in> set xs" by simp
    with below have "last xs < n" by blast
    with a show False by simp
  qed
  then have c: "(xs \<noteq> [] \<and> last xs > n - 1) = False" by simp
  show ?thesis by (subst removeStale.simps) (simp only: c if_False)
qed

lemma set_inv_filter: "set_inv xs \<Longrightarrow> set_inv (filter P xs)"
  by (simp add: set_inv_def sorted_wrt_filter)

lemma set_inv_removeStale: "set_inv xs \<Longrightarrow> set_inv (removeStale n xs)"
  by (simp add: removeStale_filter set_inv_filter)

lemma set_inv_sorted_distinct: "set_inv xs \<longleftrightarrow> sorted xs \<and> distinct xs"
  by (simp add: set_inv_def strict_sorted_iff)

lemma set_inv_insert: "set_inv xs \<Longrightarrow> set_inv (set_insert x xs)"
  by (simp add: set_inv_sorted_distinct set_insert_def sorted_insort distinct_insort)

lemma set_inv_erase: "set_inv xs \<Longrightarrow> set_inv (set_erase x xs)"
  by (simp add: set_inv_sorted_distinct set_erase_def sorted_remove1)

lemma set_set_insert: "set (set_insert x xs) = insert x (set xs)"
  by (auto simp: set_insert_def set_insort_key)

lemma set_set_erase: "set_inv xs \<Longrightarrow> set (set_erase x xs) = set xs - {x}"
  by (simp add: set_inv_sorted_distinct set_erase_def)

lemma set_inv_setOrUnset: "set_inv xs \<Longrightarrow> set_inv (setOrUnset fs x xs)"
  by (simp add: setOrUnset_def Let_def set_inv_insert set_inv_erase)

lemma toggle_twice:
  assumes "set_inv xs" "fs \<noteq> 1" "fs \<noteq> 2"
  shows "setOrUnset fs x (setOrUnset fs x xs) = xs"
proof (cases "x \<in> set xs")
  case True
  with assms have "sorted xs" "distinct xs" by (simp_all add: set_inv_sorted_distinct)
  with True assms(2,3) show ?thesis
    by (simp add: setOrUnset_def set_find_def set_erase_def set_insert_def insort_remove1)
next
  case False
  with assms(2,3) show ?thesis
    by (simp add: setOrUnset_def set_find_def set_erase_def set_insert_def set_insort_key)
qed

lemma walkBlocks_Invalid: "walkBlocks e k InvalidBlock = InvalidBlock"
proof (induction e k InvalidBlock rule: walkBlocks.induct)
  case (1 e index)
  then show ?case by (subst walkBlocks.simps) (simp add: next_block_def)
qed

lemma walkBlocks_Block:
  "walkBlocks e k (Block i) =
     (if k \<le> 0 then Block i else if i + k < blockCount e then Block (i + k) else InvalidBlock)"
proof (induction e k "Block i" arbitrary: i rule: walkBlocks.induct)
  case (1 e index)
  show ?case
  proof (cases "index > 0")
    case False
    then show ?thesis by (subst walkBlocks.simps) simp
  next
    case True
    show ?thesis
    proof (cases "i + 1 < blockCount e")
      case lt: True
      with True 1 [of "i + 1"] show ?thesis
        by (subst walkBlocks.simps) (auto simp: next_block_def)
    next
      case ge: False
      with True show ?thesis
        by (subst walkBlocks.simps) (auto simp: next_block_def walkBlocks_Invalid)
    qed
  qed
qed

subsection \<open>Rounding to a double and back to an integer\<close>

lemma round_half_even_error: "\<bar>of_int (round_half_even x) - x\<bar> \<le> 1 / 2"
proof -
  have "of_int \<lfloor>x\<rfloor> \<le> x" "x < of_int \<lfloor>x\<rfloor> + 1" by linarith+
  then show ?thesis
    by (auto simp: round_half_even_def Let_def abs_le_iff)
qed

lemma round_half_even_of_int: "round_half_even (of_int k) = k"
  by (simp add: round_half_even_def)

lemma two_powi_nat: "0 \<le> k \<Longrightarrow> (2::rat) powi k = 2 ^ nat k"
  by (simp add: power_int_def)

lemma ilog2_bounds:
  assumes "q \<noteq> 0"
  shows "2 powi ilog2 q \<le> \<bar>q\<bar> \<and> \<bar>q\<bar> < 2 powi (ilog2 q + 1)"
proof (cases "1 \<le> \<bar>q\<bar>")
  case True
  define n where "n = nat \<lfloor>\<bar>q\<bar>\<rfloor>"
  define k where "k = floorlog 2 n"
  from True have n1: "1 \<le> n" unfolding n_def by linarith
  then have npos: "0 < n" by simp
  from floorlog_bounds [OF npos, of 2] have b: "2 ^ (k - 1) \<le> n" "n < 2 ^ k"
    unfolding k_def by simp_all
  from b(2) n1 have kpos: "0 < k" by (cases k) auto
  have nq: "of_nat n \<le> \<bar>q\<bar>" "\<bar>q\<bar> < of_nat n + 1"
    unfolding n_def using True by (simp_all add: of_nat_nat) linarith+
  have e: "ilog2 q = int k - 1" using True by (simp add: ilog2_def k_def n_def)
  have lo: "(2::rat) powi (int k - 1) = 2 ^ (k - 1)"
    using kpos by (simp add: power_int_def nat_diff_distrib')
  have hi: "(2::rat) powi (int k - 1 + 1) = 2 ^ k" by simp
  have "(2::rat) ^ (k - 1) \<le> of_nat n" using b(1) by (metis of_nat_le_iff of_nat_numeral of_nat_power)
  with nq(1) have 1: "(2::rat) ^ (k - 1) \<le> \<bar>q\<bar>" by linarith
  from b(2) have "n + 1 \<le> 2 ^ k" by simp
  then have "(of_nat (n + 1) :: rat) \<le> 2 ^ k" by (metis of_nat_le_iff of_nat_numeral of_nat_power)
  with nq(2) have 2: "\<bar>q\<bar> < 2 ^ k" by simp
  from 1 2 show ?thesis unfolding e lo hi by simp
next
  case False
  define x where "x = 1 / \<bar>q\<bar>"
  from False assms have x1: "1 < x" unfolding x_def by simp
  define n where "n = nat (\<lceil>x\<rceil> - 1)"
  define k where "k = floorlog 2 n"
  from x1 have c2: "2 \<le> \<lceil>x\<rceil>" by linarith
  then have npos: "0 < n" unfolding n_def by simp
  have n_eq: "int n = \<lceil>x\<rceil> - 1" unfolding n_def using c2 by simp
  from floorlog_bounds [OF npos, of 2] have b: "2 ^ (k - 1) \<le> n" "n < 2 ^ k"
    unfolding k_def by simp_all
  from b(2) npos have kpos: "0 < k" by (cases k) auto
  have e: "ilog2 q = - int k" using False by (simp add: ilog2_def k_def n_def x_def)
  have qx: "\<bar>q\<bar> = 1 / x" unfolding x_def by simp
  have "int n + 1 \<le> 2 ^ k" using b(2) by (metis add.commute of_nat_Suc of_nat_less_iff of_nat_numeral of_nat_power zless_iff_Suc_zadd Suc_leI of_nat_le_iff plus_1_eq_Suc)
  then have "\<lceil>x\<rceil> \<le> 2 ^ k" using n_eq by simp
  then have "x \<le> of_int (2 ^ k)" by (simp add: ceiling_le_iff)
  then have xle: "x \<le> 2 ^ k" by simp
  have "(2::int) ^ (k - 1) \<le> int n" using b(1) by (metis of_nat_le_iff of_nat_numeral of_nat_power)
  then have "2 ^ (k - 1) < \<lceil>x\<rceil>" using n_eq by simp
  then have "of_int (2 ^ (k - 1)) < x" by (simp add: less_ceiling_iff)
  then have xgt: "2 ^ (k - 1) < x" by simp
  have lo: "(2::rat) powi (- int k) = 1 / 2 ^ k"
    by (simp add: power_int_def field_simps)
  have hi: "(2::rat) powi (- int k + 1) = 1 / 2 ^ (k - 1)"
    using kpos by (cases k) (simp_all add: power_int_def field_simps nat_diff_distrib')
  from xle x1 have 1: "1 / 2 ^ k \<le> 1 / x" by (simp add: frac_le)
  from xgt have 2: "1 / x < 1 / 2 ^ (k - 1)" by (simp add: frac_less2)
  from 1 2 show ?thesis unfolding e lo hi qx by simp
qed


lemma two_powi_less_iff: "(2::rat) powi a < 2 powi b \<longleftrightarrow> a < b"
proof
  assume lt: "(2::rat) powi a < 2 powi b"
  show "a < b"
  proof (rule ccontr)
    assume "\<not> a < b"
    then have "b \<le> a" by simp
    then have "(2::rat) powi b \<le> 2 powi a" by (rule power_int_increasing) simp
    with lt show False by simp
  qed
next
  assume "a < b"
  then show "(2::rat) powi a < 2 powi b" by (rule power_int_strict_increasing) simp
qed

lemma to_double_of_int:
  assumes "\<bar>k\<bar> < 2 ^ 53"
  shows "to_double (of_int k) = Finite (of_int k)"
proof (cases "k = 0")
  case True
  then show ?thesis by (simp add: to_double_def)
next
  case False
  define q where "q = rat_of_int k"
  define e where "e = ilog2 q"
  have q0: "q \<noteq> 0" using False by (simp add: q_def)
  have q1: "1 \<le> \<bar>q\<bar>" using False unfolding q_def
    by (metis of_int_abs of_int_1_le_iff zero_less_abs_iff int_one_le_iff_zero_less)
  have q53: "\<bar>q\<bar> < 2 powi 53" using assms unfolding q_def
    by (metis of_int_abs of_int_less_iff of_int_numeral of_int_power power_int_numeral)
  from ilog2_bounds [OF q0] have b: "2 powi e \<le> \<bar>q\<bar>" "\<bar>q\<bar> < 2 powi (e + 1)"
    unfolding e_def by simp_all
  from b(1) q53 have "(2::rat) powi e < 2 powi 53" by linarith
  then have e53: "e < 53" by (simp only: two_powi_less_iff)
  from b(2) q1 have "(2::rat) powi 0 < 2 powi (e + 1)" by simp
  then have "0 < e + 1" by (simp only: two_powi_less_iff)
  then have e0: "0 \<le> e" by simp
  define p where "p = max (e - 52) (- 1074)"
  have p_eq: "p = e - 52" using e0 by (simp add: p_def)
  have p_le: "p \<le> 0" using e53 p_eq by simp
  define m where "m = nat (- p)"
  have pw: "(2::rat) powi p = 1 / 2 ^ m" using p_le
    by (simp add: m_def power_int_def field_simps)
  have "q / 2 powi p = of_int (k * 2 ^ m)" by (simp add: pw q_def)
  then have "round_half_even (q / 2 powi p) = k * 2 ^ m"
    by (simp only: round_half_even_of_int)
  then have r: "of_int (round_half_even (q / 2 powi p)) * 2 powi p = q"
    by (simp add: pw q_def)
  have "\<bar>q\<bar> < 2 powi 1024"
    using q53 power_int_strict_increasing [of 53 1024 "2::rat"] by simp
  then have "\<not> 2 powi 1024 \<le> \<bar>q\<bar>" by simp
  with q0 r show ?thesis
    unfolding q_def [symmetric] by (simp add: to_double_def Let_def p_def e_def del: power_int_numeral)
qed


lemma to_double_error:
  assumes lo: "2 powi (- 1022) \<le> \<bar>q\<bar>" and hi: "\<bar>q\<bar> < 2 powi 1023"
  shows "\<exists>r. to_double q = Finite r \<and> \<bar>r - q\<bar> \<le> \<bar>q\<bar> / 2 ^ 53"
proof -
  have "(0::rat) < 2 powi (- 1022)" by (rule zero_less_power_int) simp
  with lo have q0: "q \<noteq> 0" by auto
  define e where "e = ilog2 q"
  from ilog2_bounds [OF q0] have b: "2 powi e \<le> \<bar>q\<bar>" "\<bar>q\<bar> < 2 powi (e + 1)"
    unfolding e_def by simp_all
  from lo b(2) have "(2::rat) powi (- 1022) < 2 powi (e + 1)" by linarith
  then have "- 1022 < e + 1" by (simp only: two_powi_less_iff)
  then have e_lo: "- 1022 \<le> e" by simp
  define p where "p = max (e - 52) (- 1074)"
  have p_eq: "p = e - 52" using e_lo by (simp add: p_def)
  define w where "w = (2::rat) powi p"
  have wpos: "0 < w" unfolding w_def by (rule zero_less_power_int) simp
  define m where "m = round_half_even (q / w)"
  define r where "r = rat_of_int m * w"
  have "r - q = (of_int m - q / w) * w" using wpos by (simp add: r_def field_simps)
  then have "\<bar>r - q\<bar> = \<bar>of_int m - q / w\<bar> * w" using wpos by (simp add: abs_mult)
  also have "\<dots> \<le> (1 / 2) * w"
    using round_half_even_error [of "q / w"] wpos unfolding m_def
    by (intro mult_right_mono) simp_all
  finally have err: "\<bar>r - q\<bar> \<le> w / 2" by simp
  have "(2::rat) powi e = 2 powi (p + 52)" by (simp add: p_eq)
  also have "\<dots> = w * 2 powi 52" unfolding w_def by (rule power_int_add) simp
  finally have we: "2 powi e = w * 2 ^ 52" by simp
  from b(1) we have "w * 2 ^ 52 \<le> \<bar>q\<bar>" by simp
  then have wq: "w / 2 \<le> \<bar>q\<bar> / 2 ^ 53" by (simp add: field_simps)
  with err have bound: "\<bar>r - q\<bar> \<le> \<bar>q\<bar> / 2 ^ 53" by linarith
  have "\<bar>q\<bar> / 2 ^ 53 \<le> \<bar>q\<bar>" by (simp add: field_simps)
  with bound have "\<bar>r\<bar> \<le> 2 * \<bar>q\<bar>" by linarith
  also have "\<dots> < 2 * 2 powi 1023" using hi by simp
  also have "\<dots> = (2::rat) powi (1 + 1023)" by (subst power_int_add) simp_all
  finally have "\<bar>r\<bar> < 2 powi 1024" by simp
  then have "\<not> 2 powi 1024 \<le> \<bar>r\<bar>" by simp
  then have "to_double q = Finite r"
    using q0 unfolding r_def m_def w_def p_def e_def
    by (simp add: to_double_def Let_def del: power_int_numeral)
  with bound show ?thesis by blast
qed

lemma c_trunc_of_int: "c_trunc (of_int k) = k"
  by (simp add: c_trunc_def)

lemma quotient_gap:
  assumes "b \<noteq> 0" and "q = rat_of_int a / rat_of_int b" and "of_int \<lfloor>q\<rfloor> \<noteq> q"
  shows "of_int \<lfloor>q\<rfloor> + 1 / of_int \<bar>b\<bar> \<le> q \<and> q \<le> of_int \<lfloor>q\<rfloor> + 1 - 1 / of_int \<bar>b\<bar>"
proof -
  define B where "B = \<bar>b\<bar>"
  define n where "n = a * sgn b"
  define f where "f = \<lfloor>q\<rfloor>"
  have Bpos: "0 < B" using assms(1) by (simp add: B_def)
  then have Brat: "0 < rat_of_int B" by simp
  have q: "q = of_int n / of_int B"
    using assms(1,2) by (cases "0 < b") (simp_all add: n_def B_def sgn_if)
  then have qB: "q * of_int B = of_int n" using Bpos by simp
  have "of_int \<lfloor>q\<rfloor> \<le> q" by (rule of_int_floor_le)
  with assms(3) have lt1: "of_int f < q" unfolding f_def by (metis order_le_less)
  have lt2: "q < of_int f + 1" unfolding f_def by linarith
  from lt1 Brat have "of_int f * of_int B < q * rat_of_int B" by (rule mult_strict_right_mono)
  then have "rat_of_int (f * B) < of_int n" by (simp add: qB)
  then have "f * B < n" by (simp only: of_int_less_iff)
  then have "f * B + 1 \<le> n" by simp
  then have "rat_of_int (f * B + 1) \<le> of_int n" by (simp only: of_int_le_iff)
  then have "rat_of_int (f * B + 1) / of_int B \<le> of_int n / of_int B"
    using Brat by (simp add: divide_right_mono)
  moreover have "rat_of_int (f * B + 1) / of_int B = of_int f + 1 / of_int B"
    using Brat by (simp add: add_divide_distrib)
  ultimately have 1: "of_int f + 1 / of_int B \<le> q" by (simp add: q)
  from lt2 Brat have "q * rat_of_int B < (of_int f + 1) * of_int B" by (rule mult_strict_right_mono)
  then have "rat_of_int n < of_int ((f + 1) * B)" by (simp add: qB)
  then have "n < (f + 1) * B" by (simp only: of_int_less_iff)
  then have "n \<le> (f + 1) * B - 1" by simp
  then have "rat_of_int n \<le> of_int ((f + 1) * B - 1)" by (simp only: of_int_le_iff)
  then have "rat_of_int n / of_int B \<le> of_int ((f + 1) * B - 1) / of_int B"
    using Brat by (simp add: divide_right_mono)
  moreover have "rat_of_int ((f + 1) * B - 1) / of_int B = of_int f + 1 - 1 / of_int B"
    using Brat by (simp add: diff_divide_distrib)
  ultimately have 2: "q \<le> of_int f + 1 - 1 / of_int B" by (simp add: q)
  from 1 2 show ?thesis unfolding f_def B_def by simp
qed


lemma floor_rat_of_int_div: "\<lfloor>rat_of_int p / rat_of_int q\<rfloor> = p div q"
  by (simp add: floor_divide_of_int_eq)

lemma ceiling_rat_of_int_div: "\<lceil>rat_of_int p / rat_of_int q\<rceil> = - ((- p) div q)"
proof -
  have "\<lceil>rat_of_int p / rat_of_int q\<rceil> = - \<lfloor>rat_of_int (- p) / rat_of_int q\<rfloor>"
    by (simp add: ceiling_def)
  then show ?thesis by (simp only: floor_rat_of_int_div)
qed

lemma c_trunc_of_int_div:
  assumes "b \<noteq> 0"
  shows "c_trunc (of_int a / of_int b) = c_div a b"
proof (cases "0 \<le> rat_of_int a / rat_of_int b")
  case True
  then have t: "c_trunc (of_int a / of_int b) = a div b"
    by (simp only: c_trunc_def if_True floor_rat_of_int_div)
  from True assms have "(0 \<le> a \<and> 0 < b) \<or> (a \<le> 0 \<and> b < 0)"
    by (auto simp: zero_le_divide_iff)
  then show ?thesis
  proof
    assume "0 \<le> a \<and> 0 < b"
    then show ?thesis unfolding t by (cases "a = 0") (simp_all add: c_div_def)
  next
    assume h: "a \<le> 0 \<and> b < 0"
    then have "a div b = (- a) div (- b)" by simp
    with h show ?thesis unfolding t by (cases "a = 0") (simp_all add: c_div_def)
  qed
next
  case False
  then have t: "c_trunc (of_int a / of_int b) = - ((- a) div b)"
    by (simp only: c_trunc_def if_False ceiling_rat_of_int_div)
  from False assms have "(0 < a \<and> b < 0) \<or> (a < 0 \<and> 0 < b)"
    by (auto simp: zero_le_divide_iff not_le)
  then show ?thesis
  proof
    assume h: "0 < a \<and> b < 0"
    then have "(- a) div b = a div (- b)" by (metis div_minus_right minus_minus)
    with h show ?thesis unfolding t by (simp add: c_div_def)
  next
    assume h: "a < 0 \<and> 0 < b"
    then show ?thesis unfolding t by (simp add: c_div_def)
  qed
qed

lemma c_trunc_between:
  assumes "rat_of_int f < r" and "r < of_int f + 1" and "rat_of_int f < q" and "q < of_int f + 1"
  shows "c_trunc r = c_trunc q"
proof -
  have fr: "\<lfloor>r\<rfloor> = f" using assms(1,2) by (intro floor_unique) simp_all
  have fq: "\<lfloor>q\<rfloor> = f" using assms(3,4) by (intro floor_unique) simp_all
  have cr: "\<lceil>r\<rceil> = f + 1" using assms(1,2) by (intro ceiling_unique) simp_all
  have cq: "\<lceil>q\<rceil> = f + 1" using assms(3,4) by (intro ceiling_unique) simp_all
  show ?thesis
  proof (cases "0 \<le> f")
    case True
    then have "rat_of_int 0 \<le> of_int f" by (simp only: of_int_le_iff)
    with assms(1,3) have "0 \<le> r" "0 \<le> q" by simp_all
    then show ?thesis by (simp add: c_trunc_def fr fq)
  next
    case False
    then have "f + 1 \<le> 0" by simp
    then have "rat_of_int (f + 1) \<le> of_int 0" by (simp only: of_int_le_iff)
    with assms(2,4) have "\<not> 0 \<le> r" "\<not> 0 \<le> q" by simp_all
    then show ?thesis by (simp add: c_trunc_def cr cq)
  qed
qed

lemma c_trunc_to_double_quotient:
  assumes b0: "b \<noteq> 0" and a53: "\<bar>a\<bar> < 2 ^ 53" and b53: "\<bar>b\<bar> < 2 ^ 53"
  shows "\<exists>r. to_double (of_int a / of_int b) = Finite r
             \<and> c_trunc r = c_trunc (of_int a / of_int b)"
proof -
  define q where "q = rat_of_int a / rat_of_int b"
  define B where "B = rat_of_int \<bar>b\<bar>"
  have B1: "1 \<le> B" using b0 unfolding B_def
    by (metis of_int_1_le_iff zero_less_abs_iff int_one_le_iff_zero_less)
  have Bpos: "0 < B" using B1 by simp
  have absq: "\<bar>q\<bar> = rat_of_int \<bar>a\<bar> / B" by (simp add: q_def B_def)
  have A53: "rat_of_int \<bar>a\<bar> < 2 ^ 53" using a53
    by (metis of_int_less_iff of_int_numeral of_int_power)
  have B53: "B < 2 ^ 53" using b53 unfolding B_def
    by (metis of_int_less_iff of_int_numeral of_int_power)
  have "rat_of_int \<bar>a\<bar> / B \<le> rat_of_int \<bar>a\<bar> / 1"
    using B1 by (intro divide_left_mono) simp_all
  then have q_le_a: "\<bar>q\<bar> \<le> rat_of_int \<bar>a\<bar>" by (simp add: absq)
  show ?thesis
  proof (cases "of_int \<lfloor>q\<rfloor> = q")
    case True
    define f where "f = \<lfloor>q\<rfloor>"
    have qf: "q = of_int f" unfolding f_def by (rule True [symmetric])
    from q_le_a have "rat_of_int \<bar>f\<bar> \<le> rat_of_int \<bar>a\<bar>" by (simp add: qf)
    then have "\<bar>f\<bar> \<le> \<bar>a\<bar>" by (simp only: of_int_le_iff)
    with a53 have "\<bar>f\<bar> < 2 ^ 53" by simp
    then have "to_double (of_int f) = Finite (of_int f)" by (rule to_double_of_int)
    then show ?thesis unfolding q_def [symmetric] qf by simp
  next
    case False
    have a0: "a \<noteq> 0" using False by (auto simp: q_def)
    then have A1: "1 \<le> rat_of_int \<bar>a\<bar>"
      by (metis of_int_1_le_iff zero_less_abs_iff int_one_le_iff_zero_less)
    have "1 / B \<le> rat_of_int \<bar>a\<bar> / B" using A1 Bpos by (simp add: divide_right_mono)
    then have q_lo: "1 / B \<le> \<bar>q\<bar>" by (simp add: absq)
    have "(2::rat) powi (- 1022) \<le> 2 powi (- 53)" by (rule power_int_increasing) simp_all
    also have "\<dots> = 1 / 2 ^ 53" by (simp add: power_int_def field_simps)
    also have "\<dots> \<le> 1 / B" using B53 Bpos by (intro divide_left_mono) simp_all
    finally have lo: "2 powi (- 1022) \<le> \<bar>q\<bar>" using q_lo by simp
    have "\<bar>q\<bar> < 2 powi 53" using q_le_a A53 by simp
    also have "\<dots> < (2::rat) powi 1023" by (rule power_int_strict_increasing) simp_all
    finally have hi: "\<bar>q\<bar> < 2 powi 1023" .
    from to_double_error [OF lo hi] obtain r where r: "to_double q = Finite r"
      and err: "\<bar>r - q\<bar> \<le> \<bar>q\<bar> / 2 ^ 53" by blast
    have "\<bar>q\<bar> / 2 ^ 53 = (rat_of_int \<bar>a\<bar> / 2 ^ 53) / B" by (simp add: absq)
    also have "\<dots> < 1 / B" using A53 Bpos by (intro divide_strict_right_mono) simp_all
    finally have small: "\<bar>r - q\<bar> < 1 / B" using err by simp
    from quotient_gap [OF b0 q_def False]
    have gap: "of_int \<lfloor>q\<rfloor> + 1 / B \<le> q" "q \<le> of_int \<lfloor>q\<rfloor> + 1 - 1 / B"
      unfolding B_def by simp_all
    have Binv: "0 < 1 / B" using Bpos by simp
    from small gap Binv have "rat_of_int \<lfloor>q\<rfloor> < r" "r < of_int \<lfloor>q\<rfloor> + 1" by linarith+
    moreover from gap Binv have "rat_of_int \<lfloor>q\<rfloor> < q" "q < of_int \<lfloor>q\<rfloor> + 1" by linarith+
    ultimately have "c_trunc r = c_trunc q" by (rule c_trunc_between)
    with r show ?thesis unfolding q_def by blast
  qed
qed

lemma to_int_quotient:
  assumes "b \<noteq> 0" and "int32 a' \<and> int32 c" and "a = a' + c \<or> a = a' - c" and "int32 b"
    and "int32 (c_div a b)"
  shows "to_int (qreal_div (to_double (of_int a)) (of_int b)) = c_div a b"
proof -
  from assms(2,3) have a53: "\<bar>a\<bar> < 2 ^ 53" by (auto simp: int32_def INT_MIN_def INT_MAX_def)
  from assms(4) have b53: "\<bar>b\<bar> < 2 ^ 53" by (auto simp: int32_def INT_MIN_def INT_MAX_def)
  from a53 have ex: "to_double (of_int a) = Finite (of_int a)" by (rule to_double_of_int)
  from c_trunc_to_double_quotient [OF assms(1) a53 b53] obtain r
    where r: "to_double (of_int a / of_int b) = Finite r"
      and t: "c_trunc r = c_trunc (of_int a / of_int b)" by blast
  from t have "c_trunc r = c_div a b" by (simp add: c_trunc_of_int_div [OF assms(1)])
  with assms(1,5) r ex show ?thesis by (simp add: to_int_def qreal_div_def)
qed

lemma to_double_numeral:
  assumes "(numeral w :: int) < 2 ^ 53"
  shows "to_double (numeral w) = Finite (numeral w)"
  using to_double_of_int [of "numeral w"] assms by simp

lemma to_int_of_int: "int32 k \<Longrightarrow> to_int (Finite (of_int k)) = k"
  by (simp add: to_int_def c_trunc_of_int)

lemma to_int_numeral:
  assumes "int32 (numeral w)"
  shows "to_int (Finite (numeral w)) = numeral w"
  using to_int_of_int [OF assms] by simp

subsection \<open>Where a click lands\<close>

lemma firstVisibleBlock_eq:
  "firstVisibleBlock e =
     (if 0 \<le> firstVisibleLine e \<and> firstVisibleLine e < blockCount e
      then Block (firstVisibleLine e) else InvalidBlock)"
  by (simp add: firstVisibleBlock_def findBlockByNumber_def)

lemma clickedBlock_eq:
  "clickedBlock e y =
     (if 0 \<le> firstVisibleLine e \<and> firstVisibleLine e < blockCount e
      then (if clickIndex e y \<le> 0 then Block (firstVisibleLine e)
            else if firstVisibleLine e + clickIndex e y < blockCount e
                 then Block (firstVisibleLine e + clickIndex e y) else InvalidBlock)
      else InvalidBlock)"
  by (simp add: clickedBlock_def firstVisibleBlock_eq walkBlocks_Block walkBlocks_Invalid)

lemma clickedBlock_range:
  assumes "clickedBlock e y = Block x"
  shows "0 \<le> x \<and> x < blockCount e"
  using assms by (auto simp: clickedBlock_eq split: if_splits)

lemma clickedBlock_beyond:
  assumes "blockCount e \<le> firstVisibleLine e + clickIndex e y"
  shows "clickedBlock e y = InvalidBlock"
  using assms by (auto simp: clickedBlock_eq)

lemma walkBlocks_cong:
  "blockCount e' = blockCount e \<Longrightarrow> walkBlocks e' k b = walkBlocks e k b"
  by (cases b) (simp_all add: walkBlocks_Block walkBlocks_Invalid)

lemma clickedBlock_frame:
  "clickedBlock (repaint (e\<lparr>m_breakpoints := bps\<rparr>)) y = clickedBlock e y"
proof -
  let ?e' = "repaint (e\<lparr>m_breakpoints := bps\<rparr>)"
  have fv: "firstVisibleBlock ?e' = firstVisibleBlock e"
    by (simp add: firstVisibleBlock_def findBlockByNumber_def repaint_def)
  have ci: "clickIndex ?e' y = clickIndex e y"
    by (simp add: clickIndex_def firstVisibleBlock_def findBlockByNumber_def
        blockBoundingRectHeight_def repaint_def Let_def)
  have "blockCount ?e' = blockCount e" by (simp add: repaint_def)
  then have "\<And>k b. walkBlocks ?e' k b = walkBlocks e k b" by (rule walkBlocks_cong)
  with fv ci show ?thesis by (simp add: clickedBlock_def)
qed

lemma breakpointClick_Block:
  "clickedBlock e y = Block x \<Longrightarrow>
   breakpointClick y fs e = repaint (e\<lparr>m_breakpoints := setOrUnset fs x (m_breakpoints e)\<rparr>)"
  by (simp add: breakpointClick_def)

lemma breakpointClick_Invalid:
  "clickedBlock e y = InvalidBlock \<Longrightarrow> breakpointClick y fs e = e"
  by (simp add: breakpointClick_def)

lemma m_breakpoints_repaint: "m_breakpoints (repaint e) = m_breakpoints e"
  by (simp add: repaint_def)

lemma breakpointClick_twice:
  assumes "clickedBlock e y = Block x"
  shows "breakpointClick y fs' (breakpointClick y fs e) =
         repaint (repaint (e\<lparr>m_breakpoints :=
                 setOrUnset fs' x (setOrUnset fs x (m_breakpoints e))\<rparr>))"
proof -
  let ?e1 = "repaint (e\<lparr>m_breakpoints := setOrUnset fs x (m_breakpoints e)\<rparr>)"
  have 1: "breakpointClick y fs e = ?e1"
    using assms by (rule breakpointClick_Block)
  have "clickedBlock ?e1 y = Block x"
    using assms by (simp only: clickedBlock_frame)
  then have "breakpointClick y fs' ?e1 =
      repaint (?e1\<lparr>m_breakpoints := setOrUnset fs' x (m_breakpoints ?e1)\<rparr>)"
    by (rule breakpointClick_Block)
  with 1 show ?thesis by (simp add: repaint_def)
qed

lemma breakpointClick_cases:
  "breakpointClick y fs e = e
   \<or> (\<exists>x. 0 \<le> x \<and> x < blockCount e \<and> clickedBlock e y = Block x
          \<and> breakpointClick y fs e =
              repaint (e\<lparr>m_breakpoints := setOrUnset fs x (m_breakpoints e)\<rparr>))"
proof (cases "clickedBlock e y")
  case (Block x)
  from breakpointClick_Block [OF Block, of fs] clickedBlock_range [OF Block] Block
  show ?thesis by blast
next
  case InvalidBlock
  then show ?thesis by (simp add: breakpointClick_Invalid)
qed

text \<open>On geometry in whole numbers of pixels the quotient of lines 205 and 207,
  converted to \<^verbatim>\<open>int\<close>, is the integer quotient \<open>c_div\<close>, as long as that fits in an
  \<^verbatim>\<open>int\<close>.\<close>

lemma clickIndex_whole:
  assumes "0 \<le> firstVisibleLine e" and "firstVisibleLine e < blockCount e"
    and "blockHeight e (firstVisibleLine e) = of_int h" and "h \<noteq> 0"
    and "contentOffsetY e = of_int c"
    and "int32 y" and "int32 c" and "int32 h"
    and "int32 (if firstVisibleLine e = 0 then c_div (y - c) h else c_div (y + c) h)"
  shows "clickIndex e y =
         (if firstVisibleLine e = 0 then c_div (y - c) h else c_div (y + c) h)"
proof -
  have fv: "firstVisibleBlock e = Block (firstVisibleLine e)"
    using assms(1,2) by (simp add: firstVisibleBlock_eq)
  have z: "findBlockByNumber e 0 = Block 0"
    using assms(1,2) by (simp add: findBlockByNumber_def)
  have hh: "blockBoundingRectHeight e (firstVisibleBlock e) = of_int h"
    by (simp add: fv blockBoundingRectHeight_def assms(3))
  have blk: "(firstVisibleBlock e = findBlockByNumber e 0) = (firstVisibleLine e = 0)"
    by (simp add: fv z)
  have yc: "int32 y \<and> int32 c" using assms(6,7) by simp
  show ?thesis
  proof (cases "firstVisibleLine e = 0")
    case True
    with assms(9) have r: "int32 (c_div (y - c) h)" by simp
    have "to_int (qreal_div (to_double (of_int (y - c))) (of_int h)) = c_div (y - c) h"
      using assms(4) yc _ assms(8) r by (rule to_int_quotient) simp
    with True show ?thesis
      by (simp add: clickIndex_def Let_def hh blk assms(5) qreal_sub_def)
  next
    case False
    with assms(9) have r: "int32 (c_div (y + c) h)" by simp
    have "to_int (qreal_div (to_double (of_int (y + c))) (of_int h)) = c_div (y + c) h"
      using assms(4) yc _ assms(8) r by (rule to_int_quotient) simp
    with False show ?thesis
      by (simp add: clickIndex_def Let_def hh blk assms(5) qreal_add_def)
  qed
qed

text \<open>The same for the editors of the scenarios.\<close>

lemma clickIndex_editorWith:
  assumes "0 \<le> f" and "f < n" and "h \<noteq> 0" and "int32 y" and "int32 c" and "int32 h"
    and "k = (if f = 0 then c_div (y - c) h else c_div (y + c) h)" and "int32 k"
  shows "clickIndex (editorWith bps n f (of_int c) (of_int h)) y = k"
  using clickIndex_whole [of "editorWith bps n f (of_int c) (of_int h)" h c y] assms
  by (simp add: editorWith_def)

lemma clickedBlock_editorWith:
  assumes "0 \<le> f" and "f < n" and "h \<noteq> 0" and "int32 y" and "int32 c" and "int32 h"
    and "k = (if f = 0 then c_div (y - c) h else c_div (y + c) h)" and "int32 k"
  shows "clickedBlock (editorWith bps n f (of_int c) (of_int h)) y =
         (if k \<le> 0 then Block f else if f + k < n then Block (f + k) else InvalidBlock)"
proof -
  let ?E = "editorWith bps n f (of_int c) (of_int h)"
  have "clickIndex ?E y = k" using assms by (rule clickIndex_editorWith)
  moreover have "firstVisibleLine ?E = f" "blockCount ?E = n" by (simp_all add: editorWith_def)
  ultimately show ?thesis using assms(1,2) by (simp add: clickedBlock_eq)
qed

lemma int32_numeral: "int32 (numeral w) \<longleftrightarrow> (numeral w :: int) \<le> 2147483647"
  by (simp add: int32_def INT_MIN_def INT_MAX_def)

lemma force_add_contains: "contains x (setOrUnset 1 x xs)"
  by (simp add: setOrUnset_def contains_def set_find_def set_set_insert)

lemma force_remove_not_contains: "set_inv xs \<Longrightarrow> \<not> contains x (setOrUnset 2 x xs)"
  by (simp add: setOrUnset_def contains_def set_find_def set_set_erase)

lemma force_add_idem: "setOrUnset 1 x (setOrUnset 1 x xs) = setOrUnset 1 x xs"
  by (simp add: setOrUnset_def set_insert_def set_insort_key)

lemma force_remove_idem: "set_inv xs \<Longrightarrow> setOrUnset 2 x (setOrUnset 2 x xs) = setOrUnset 2 x xs"
  by (simp add: setOrUnset_def set_find_def set_set_erase)

lemma in_range_iff: "in_range n xs \<longleftrightarrow> (\<forall>x\<in>set xs. 0 \<le> x \<and> x < n)"
  by (auto simp: in_range_def list_all_iff)

lemma set_setOrUnset_subset: "set (setOrUnset fs x xs) \<subseteq> insert x (set xs)"
  by (auto simp: setOrUnset_def Let_def set_set_insert set_erase_def
      dest: notin_set_remove1 split: if_splits)

lemma in_range_removeStale:
  assumes "set_inv xs" and "in_range m xs"
  shows "in_range n (removeStale n xs)"
  using assms by (auto simp: removeStale_filter in_range_iff)

lemma in_range_setOrUnset:
  assumes "in_range n xs" and "0 \<le> x" and "x < n"
  shows "in_range n (setOrUnset fs x xs)"
  using assms set_setOrUnset_subset [of fs x xs] by (auto simp: in_range_iff)

subsection \<open>Reconciliation after the document shrank\<close>

text \<open>
  Claim C1. For every breakpoint set and every block count \<open>N\<close>, after the tail-removal
  loop of \<open>updateSidebar\<close> every remaining element is below \<open>N\<close>, and every element that
  was below \<open>N\<close> is still there. From \<open>{2, 5, 9}\<close> and \<open>N = 6\<close> the result is \<open>{2, 5}\<close>.
\<close>

theorem reconcile_removes_tail:
  assumes "set_inv (m_breakpoints e)"
  shows "(\<forall>x\<in>set (m_breakpoints (updateSidebar e)). x < blockCount e)
       \<and> (\<forall>x\<in>set (m_breakpoints e).
            x < blockCount e \<longrightarrow> x \<in> set (m_breakpoints (updateSidebar e)))
       \<and> m_breakpoints (updateSidebar (editorWith [2, 5, 9] 6 0 0 20)) = [2, 5]"
proof -
  have "m_breakpoints (updateSidebar e) = filter (\<lambda>x. x < blockCount e) (m_breakpoints e)"
    using assms by (simp add: updateSidebar_def removeStale_filter)
  moreover have "set_inv [2, 5, 9]"
    by (simp add: set_inv_def)
  then have "m_breakpoints (updateSidebar (editorWith [2, 5, 9] 6 0 0 20)) = [2, 5]"
    by (simp add: updateSidebar_def editorWith_def removeStale_filter)
  ultimately show ?thesis by simp
qed

theorem reconcile_removes_tail_witness:
  "set_inv [1, 4, 7, 8]
   \<and> m_breakpoints (updateSidebar (editorWith [1, 4, 7, 8] 5 0 0 20)) = [1, 4]
   \<and> list_all (\<lambda>x. x < 5) (m_breakpoints (updateSidebar (editorWith [1, 4, 7, 8] 5 0 0 20)))
   \<and> 1 \<in> set (m_breakpoints (updateSidebar (editorWith [1, 4, 7, 8] 5 0 0 20)))
   \<and> 4 \<in> set (m_breakpoints (updateSidebar (editorWith [1, 4, 7, 8] 5 0 0 20)))"
proof -
  have inv: "set_inv (m_breakpoints (editorWith [1, 4, 7, 8] 5 0 0 20))"
    by (simp add: editorWith_def set_inv_def)
  have val: "m_breakpoints (updateSidebar (editorWith [1, 4, 7, 8] 5 0 0 20)) = [1, 4]"
    by (simp add: updateSidebar_def editorWith_def removeStale.simps)
  from reconcile_removes_tail [OF inv] val show ?thesis
    by (simp add: editorWith_def set_inv_def list_all_iff)
qed

text \<open>
  Claim C3. The loop that erases the greatest element while it is not below \<open>N\<close> yields
  the same set as one pass that keeps the elements below \<open>N\<close>.
\<close>

theorem reconcile_loop_is_filter:
  assumes "set_inv (m_breakpoints e)"
  shows "m_breakpoints (updateSidebar e) = reconcile_spec (blockCount e) (m_breakpoints e)"
  using assms by (simp add: updateSidebar_def reconcile_spec_def removeStale_filter)

theorem reconcile_loop_is_filter_witness:
  "set_inv [0, 3, 4, 10, 11]
   \<and> m_breakpoints (updateSidebar (editorWith [0, 3, 4, 10, 11] 4 0 0 20)) = [0, 3]
   \<and> reconcile_spec 4 [0, 3, 4, 10, 11] = [0, 3]"
proof -
  have inv: "set_inv (m_breakpoints (editorWith [0, 3, 4, 10, 11] 4 0 0 20))"
    by (simp add: editorWith_def set_inv_def)
  from reconcile_loop_is_filter [OF inv] show ?thesis
    by (simp add: editorWith_def set_inv_def reconcile_spec_def)
qed

text \<open>
  Claim C6. When every element of the set is already below the block count,
  \<open>updateSidebar\<close> changes nothing: the editor after the call is the editor before it.
\<close>

theorem reconcile_noop:
  assumes "\<forall>x\<in>set (m_breakpoints e). x < blockCount e"
  shows "updateSidebar e = e"
  using assms by (simp add: updateSidebar_def removeStale_id)

theorem reconcile_noop_witness:
  "list_all (\<lambda>x. x < (10::int)) [2, 5, 9]
   \<and> m_breakpoints (updateSidebar (editorWith [2, 5, 9] 10 0 0 20)) = [2, 5, 9]"
proof -
  have below: "\<forall>x\<in>set (m_breakpoints (editorWith [2, 5, 9] 10 0 0 20)).
                 x < blockCount (editorWith [2, 5, 9] 10 0 0 20)"
    by (simp add: editorWith_def)
  from reconcile_noop [OF below] show ?thesis
    by (simp add: editorWith_def)
qed

subsection \<open>Painting the breakpoint area\<close>

lemma paintLoop_frame:
  "snd (paintLoop rtop rbottom block blockNo ytop ybottom drawn e) = e"
proof (induction rtop rbottom block blockNo ytop ybottom drawn e rule: paintLoop.induct)
  case (1 rtop rbottom block blockNo ytop ybottom drawn e)
  then show ?case by (subst paintLoop.simps) (auto simp: Let_def)
qed

lemma paint_scenario:
  "fst (breakpointAreaPaintEvent 0 100 (editorWith [1, 3] 10 0 5 20)) = [25, 65]"
  by (simp add: breakpointAreaPaintEvent_def editorWith_def firstVisibleBlock_eq
      blockGeometryTop_def blockBoundingRectHeight_def isVisible_def next_block_def
      qreal_add_def to_double_numeral to_int_numeral int32_numeral set_find_def
      paintLoop.simps)

text \<open>
  Claim C9. Painting the breakpoint area queries the set once per painted line and
  leaves the editor, and with it the breakpoint set, exactly as it was. The membership
  query \<open>contains\<close> returns a truth value and nothing else. In an editor of ten lines of
  height 20 with breakpoints on lines 1 and 3, the markers are drawn at 25 and 65.
\<close>

theorem paint_leaves_breakpoints:
  "snd (breakpointAreaPaintEvent rtop rbottom e) = e
   \<and> m_breakpoints (snd (breakpointAreaPaintEvent rtop rbottom e)) = m_breakpoints e
   \<and> fst (breakpointAreaPaintEvent 0 100 (editorWith [1, 3] 10 0 5 20)) = [25, 65]"
proof -
  have "snd (breakpointAreaPaintEvent rtop rbottom e) = e"
    by (simp add: breakpointAreaPaintEvent_def Let_def paintLoop_frame)
  with paint_scenario show ?thesis by simp
qed

theorem paint_leaves_breakpoints_witness:
  "m_breakpoints (snd (breakpointAreaPaintEvent 0 100 (editorWith [1, 3] 10 0 5 20))) = [1, 3]
   \<and> repaints (snd (breakpointAreaPaintEvent 0 100 (editorWith [1, 3] 10 0 5 20))) = 0"
  using paint_leaves_breakpoints [of 0 100 "editorWith [1, 3] 10 0 5 20"]
  by (simp add: editorWith_def)

subsection \<open>Setting, unsetting and toggling by a click\<close>

text \<open>What a click does in an editor of the scenarios, when it lands on a line of the
  document.\<close>

lemma breakpointClick_editorWith:
  assumes "0 \<le> f" and "f < n" and "h \<noteq> 0" and "int32 y" and "int32 c" and "int32 h"
    and "k = (if f = 0 then c_div (y - c) h else c_div (y + c) h)" and "int32 k"
    and "0 \<le> k" and "f + k < n"
  shows "clickedBlock (editorWith bps n f (of_int c) (of_int h)) y = Block (f + k)"
    and "m_breakpoints (breakpointClick y fs (editorWith bps n f (of_int c) (of_int h)))
         = setOrUnset fs (f + k) bps"
    and "m_breakpoints (breakpointClick y fs'
           (breakpointClick y fs (editorWith bps n f (of_int c) (of_int h))))
         = setOrUnset fs' (f + k) (setOrUnset fs (f + k) bps)"
proof -
  let ?E = "editorWith bps n f (of_int c) (of_int h)"
  from clickedBlock_editorWith [OF assms(1-8), of bps] assms(9,10)
  show b: "clickedBlock ?E y = Block (f + k)" by (cases "k = 0") simp_all
  have m: "m_breakpoints ?E = bps" by (simp add: editorWith_def)
  from breakpointClick_Block [OF b, of fs]
  show "m_breakpoints (breakpointClick y fs ?E) = setOrUnset fs (f + k) bps"
    by (simp add: m_breakpoints_repaint m)
  from breakpointClick_twice [OF b, of fs' fs]
  show "m_breakpoints (breakpointClick y fs' (breakpointClick y fs ?E))
         = setOrUnset fs' (f + k) (setOrUnset fs (f + k) bps)"
    by (simp add: m_breakpoints_repaint m)
qed

lemmas scenario_simps =
  int32_numeral c_div_def setOrUnset_def set_find_def set_insert_def set_erase_def

lemma toggle_scenario:
  "m_breakpoints (breakpointClick 67 0 (editorWith [] 10 0 5 20)) = [3]
   \<and> m_breakpoints (breakpointClick 67 0 (breakpointClick 67 0 (editorWith [] 10 0 5 20))) = []"
  using
    breakpointClick_editorWith(2)
      [where f = 0 and n = 10 and h = 20 and y = 67 and c = 5 and k = 3 and bps = "[]"
         and fs = 0]
    breakpointClick_editorWith(3)
      [where f = 0 and n = 10 and h = 20 and y = 67 and c = 5 and k = 3 and bps = "[]"
         and fs = 0 and fs' = 0]
  by (simp add: scenario_simps)

text \<open>
  Claim C4. Toggling the same line twice gives back the breakpoint set: two clicks at the
  same position with a force state other than 1 and 2 return the set to what it was, for
  every position and every geometry, and so does the toggle of lines 217-230 applied
  twice to any line index \<open>x\<close>. From the empty set, toggling line 3 yields \<open>{3}\<close> and
  toggling it again yields the empty set.
\<close>

theorem toggle_involution:
  assumes "set_inv (m_breakpoints e)" and "fs \<noteq> 1" and "fs \<noteq> 2"
  shows "m_breakpoints (breakpointClick y fs (breakpointClick y fs e)) = m_breakpoints e
       \<and> setOrUnset fs x (setOrUnset fs x (m_breakpoints e)) = m_breakpoints e
       \<and> m_breakpoints (breakpointClick 67 0 (editorWith [] 10 0 5 20)) = [3]
       \<and> m_breakpoints (breakpointClick 67 0 (breakpointClick 67 0 (editorWith [] 10 0 5 20)))
          = []"
proof -
  have click: "m_breakpoints (breakpointClick y fs (breakpointClick y fs e)) = m_breakpoints e"
  proof (cases "clickedBlock e y")
    case (Block z)
    from breakpointClick_twice [OF Block, of fs fs] toggle_twice [OF assms, of z]
    show ?thesis by (simp add: m_breakpoints_repaint)
  next
    case InvalidBlock
    then show ?thesis by (simp add: breakpointClick_Invalid)
  qed
  with toggle_twice [OF assms, of x] toggle_scenario show ?thesis by simp
qed

theorem toggle_involution_witness:
  "set_inv [2, 5] \<and> (0::int) \<noteq> 1 \<and> (0::int) \<noteq> 2
   \<and> m_breakpoints (breakpointClick 47 0 (editorWith [2, 5] 10 0 5 20)) = [5]
   \<and> m_breakpoints (breakpointClick 47 0 (breakpointClick 47 0 (editorWith [2, 5] 10 0 5 20)))
      = [2, 5]"
proof -
  let ?E = "editorWith [2, 5] 10 0 5 20"
  have inv: "set_inv (m_breakpoints ?E)" by (simp add: editorWith_def set_inv_def)
  have one: "m_breakpoints (breakpointClick 47 0 ?E) = [5]"
    using breakpointClick_editorWith(2)
      [where f = 0 and n = 10 and h = 20 and y = 47 and c = 5 and k = 2 and bps = "[2, 5]"
         and fs = 0]
    by (simp add: scenario_simps)
  from toggle_involution [OF inv, where fs = 0 and y = 47 and x = 2]
  have "m_breakpoints (breakpointClick 47 0 (breakpointClick 47 0 ?E)) = m_breakpoints ?E"
    by simp
  with inv one show ?thesis by (simp add: editorWith_def)
qed

text \<open>
  Claim C5. After a click with force state 1 the clicked line is in the set, after a
  click with force state 2 it is not, whatever the set was before; a second click of the
  same kind at the same position leaves the set as the first one left it. The same holds
  of lines 217-230 applied to any line index \<open>z\<close>.
\<close>

theorem force_semantics:
  assumes "set_inv (m_breakpoints e)"
  shows "m_breakpoints (breakpointClick y 1 (breakpointClick y 1 e))
           = m_breakpoints (breakpointClick y 1 e)
       \<and> (clickedBlock e y = Block x \<longrightarrow> contains x (m_breakpoints (breakpointClick y 1 e)))
       \<and> m_breakpoints (breakpointClick y 2 (breakpointClick y 2 e))
           = m_breakpoints (breakpointClick y 2 e)
       \<and> (clickedBlock e y = Block x \<longrightarrow> \<not> contains x (m_breakpoints (breakpointClick y 2 e)))
       \<and> contains z (setOrUnset 1 z (m_breakpoints e))
       \<and> \<not> contains z (setOrUnset 2 z (m_breakpoints e))
       \<and> setOrUnset 1 z (setOrUnset 1 z (m_breakpoints e)) = setOrUnset 1 z (m_breakpoints e)
       \<and> setOrUnset 2 z (setOrUnset 2 z (m_breakpoints e)) = setOrUnset 2 z (m_breakpoints e)"
proof -
  have idem: "m_breakpoints (breakpointClick y 1 (breakpointClick y 1 e))
           = m_breakpoints (breakpointClick y 1 e)
       \<and> m_breakpoints (breakpointClick y 2 (breakpointClick y 2 e))
           = m_breakpoints (breakpointClick y 2 e)"
  proof (cases "clickedBlock e y")
    case (Block w)
    from breakpointClick_twice [OF Block, of 1 1] breakpointClick_twice [OF Block, of 2 2]
      breakpointClick_Block [OF Block, of 1] breakpointClick_Block [OF Block, of 2]
    show ?thesis
      by (simp add: m_breakpoints_repaint force_add_idem force_remove_idem [OF assms])
  next
    case InvalidBlock
    then show ?thesis by (simp add: breakpointClick_Invalid)
  qed
  have add: "clickedBlock e y = Block x \<longrightarrow> contains x (m_breakpoints (breakpointClick y 1 e))"
    by (simp add: breakpointClick_Block m_breakpoints_repaint force_add_contains)
  have rem: "clickedBlock e y = Block x \<longrightarrow>
      \<not> contains x (m_breakpoints (breakpointClick y 2 e))"
    by (simp add: breakpointClick_Block m_breakpoints_repaint
        force_remove_not_contains [OF assms])
  from idem add rem show ?thesis
    by (simp add: force_add_contains force_add_idem force_remove_idem [OF assms]
        force_remove_not_contains [OF assms])
qed

theorem force_semantics_witness:
  "set_inv [2, 5]
   \<and> clickedBlock (editorWith [2, 5] 10 0 5 20) 47 = Block 2
   \<and> m_breakpoints (breakpointClick 47 1 (editorWith [2, 5] 10 0 5 20)) = [2, 5]
   \<and> m_breakpoints (breakpointClick 47 2 (editorWith [2, 5] 10 0 5 20)) = [5]
   \<and> m_breakpoints (breakpointClick 47 2 (breakpointClick 47 2 (editorWith [2, 5] 10 0 5 20)))
      = [5]
   \<and> contains 2 (m_breakpoints (breakpointClick 47 1 (editorWith [2, 5] 10 0 5 20)))
   \<and> \<not> contains 2 (m_breakpoints (breakpointClick 47 2 (editorWith [2, 5] 10 0 5 20)))"
proof -
  let ?E = "editorWith [2, 5] 10 0 5 20"
  have inv: "set_inv (m_breakpoints ?E)" by (simp add: editorWith_def set_inv_def)
  note ev = breakpointClick_editorWith
      [where f = 0 and n = 10 and h = 20 and y = 47 and c = 5 and k = 2 and bps = "[2, 5]"]
  have b: "clickedBlock ?E 47 = Block 2"
    using ev(1) by (simp add: scenario_simps)
  have v1: "m_breakpoints (breakpointClick 47 1 ?E) = [2, 5]"
    using ev(2) [where fs = 1] by (simp add: scenario_simps)
  have v2: "m_breakpoints (breakpointClick 47 2 ?E) = [5]"
    using ev(2) [where fs = 2] by (simp add: scenario_simps)
  from force_semantics [OF inv, where y = 47 and x = 2 and z = 2] b v2
  have "m_breakpoints (breakpointClick 47 2 (breakpointClick 47 2 ?E)) = [5]
      \<and> contains 2 (m_breakpoints (breakpointClick 47 1 ?E))
      \<and> \<not> contains 2 (m_breakpoints (breakpointClick 47 2 ?E))"
    by simp
  with inv b v1 v2 show ?thesis by (simp add: editorWith_def)
qed

subsection \<open>Clicks below the last line\<close>

lemma breakpointClick_changes:
  assumes "m_breakpoints (breakpointClick y fs e) \<noteq> m_breakpoints e"
  shows "\<exists>x. clickedBlock e y = Block x \<and> 0 \<le> x \<and> x < blockCount e"
  using assms breakpointClick_cases [of y fs e] by auto

text \<open>
  Claim C10. When the line index computed from the click position lies beyond the last
  line of the document, the block walked to is invalid and \<open>breakpointClick\<close> returns the
  editor as it was, with every force state: the breakpoint set is unchanged and nothing
  is repainted. A click that changes the set resolves to a line of the document.
\<close>

theorem click_beyond_last_line:
  "(clickIndex e y = k \<and> blockCount e \<le> firstVisibleLine e + k
      \<longrightarrow> clickedBlock e y = InvalidBlock)
   \<and> (clickedBlock e y = InvalidBlock \<longrightarrow> breakpointClick y fs e = e)
   \<and> (m_breakpoints (breakpointClick y fs e) \<noteq> m_breakpoints e
      \<longrightarrow> (\<exists>x. clickedBlock e y = Block x \<and> 0 \<le> x \<and> x < blockCount e))"
  using clickedBlock_beyond [of e y] breakpointClick_Invalid [of e y fs]
    breakpointClick_changes [of y fs e]
  by blast

theorem click_beyond_last_line_witness:
  "clickIndex (editorWith [1] 4 0 5 20) 205 = 10
   \<and> blockCount (editorWith [1] 4 0 5 20) \<le> firstVisibleLine (editorWith [1] 4 0 5 20) + 10
   \<and> clickedBlock (editorWith [1] 4 0 5 20) 205 = InvalidBlock
   \<and> breakpointClick 205 0 (editorWith [1] 4 0 5 20) = editorWith [1] 4 0 5 20
   \<and> breakpointClick 205 1 (editorWith [1] 4 0 5 20) = editorWith [1] 4 0 5 20
   \<and> breakpointClick 205 2 (editorWith [1] 4 0 5 20) = editorWith [1] 4 0 5 20
   \<and> m_breakpoints (breakpointClick 47 0 (editorWith [1] 4 0 5 20)) = [1, 2]
   \<and> (\<exists>x. clickedBlock (editorWith [1] 4 0 5 20) 47 = Block x \<and> 0 \<le> x \<and> x < 4)"
proof -
  let ?E = "editorWith [1] 4 0 5 20"
  have k: "clickIndex ?E 205 = 10"
    using clickIndex_editorWith
      [where f = 0 and n = 4 and h = 20 and y = 205 and c = 5 and k = 10 and bps = "[1]"]
    by (simp add: scenario_simps)
  have n: "blockCount ?E \<le> firstVisibleLine ?E + 10" by (simp add: editorWith_def)
  have v: "m_breakpoints (breakpointClick 47 0 ?E) = [1, 2]"
    using breakpointClick_editorWith(2)
      [where f = 0 and n = 4 and h = 20 and y = 47 and c = 5 and k = 2 and bps = "[1]"
         and fs = 0]
    by (simp add: scenario_simps)
  then have ne: "m_breakpoints (breakpointClick 47 0 ?E) \<noteq> m_breakpoints ?E"
    by (simp add: editorWith_def)
  have bc: "blockCount ?E = 4" by (simp add: editorWith_def)
  from click_beyond_last_line [of ?E 205 10 0] k n
  have inv: "clickedBlock ?E 205 = InvalidBlock" by blast
  from click_beyond_last_line [of ?E 205 10 0] inv
  have c0: "breakpointClick 205 0 ?E = ?E" by blast
  from click_beyond_last_line [of ?E 205 10 1] inv
  have c1: "breakpointClick 205 1 ?E = ?E" by blast
  from click_beyond_last_line [of ?E 205 10 2] inv
  have c2: "breakpointClick 205 2 ?E = ?E" by blast
  from click_beyond_last_line [of ?E 47 0 0] ne
  have "\<exists>x. clickedBlock ?E 47 = Block x \<and> 0 \<le> x \<and> x < blockCount ?E" by blast
  with bc have ex: "\<exists>x. clickedBlock ?E 47 = Block x \<and> 0 \<le> x \<and> x < 4" by simp
  from k n inv c0 c1 c2 v ex show ?thesis by blast
qed

subsection \<open>Breakpoints stay on lines of the document\<close>

text \<open>
  Claim C7. Every element of the breakpoint set is a line index between 0 and the block
  count minus one: \<open>updateSidebar\<close> establishes this for the current block count from a
  set that was in range for any earlier block count \<open>m\<close>; a click with any force state
  and \<open>clearBreakpoints\<close> preserve it. A click only ever marks the number of a valid
  block, so the operations need no precondition on the index. The representation
  invariant of the set is preserved as well.
\<close>

theorem range_invariant:
  assumes "set_inv (m_breakpoints e)"
  shows "(in_range m (m_breakpoints e) \<longrightarrow>
            in_range (blockCount (updateSidebar e)) (m_breakpoints (updateSidebar e)))
       \<and> set_inv (m_breakpoints (updateSidebar e))
       \<and> (in_range (blockCount e) (m_breakpoints e) \<longrightarrow>
            in_range (blockCount (breakpointClick y fs e))
              (m_breakpoints (breakpointClick y fs e)))
       \<and> set_inv (m_breakpoints (breakpointClick y fs e))
       \<and> in_range (blockCount (clearBreakpoints e)) (m_breakpoints (clearBreakpoints e))
       \<and> set_inv (m_breakpoints (clearBreakpoints e))"
proof -
  have upd: "in_range m (m_breakpoints e) \<longrightarrow>
            in_range (blockCount (updateSidebar e)) (m_breakpoints (updateSidebar e))"
    using assms by (simp add: updateSidebar_def in_range_removeStale)
  have upd_inv: "set_inv (m_breakpoints (updateSidebar e))"
    using assms by (simp add: updateSidebar_def set_inv_removeStale)
  have click: "in_range (blockCount e) (m_breakpoints e) \<longrightarrow>
            in_range (blockCount (breakpointClick y fs e))
              (m_breakpoints (breakpointClick y fs e))"
    using breakpointClick_cases [of y fs e]
    by (auto simp: repaint_def in_range_setOrUnset)
  have click_inv: "set_inv (m_breakpoints (breakpointClick y fs e))"
    using breakpointClick_cases [of y fs e] assms
    by (auto simp: repaint_def set_inv_setOrUnset)
  have clear: "in_range (blockCount (clearBreakpoints e)) (m_breakpoints (clearBreakpoints e))
       \<and> set_inv (m_breakpoints (clearBreakpoints e))"
    by (simp add: clearBreakpoints_def in_range_def set_inv_def)
  from upd upd_inv click click_inv clear show ?thesis by blast
qed

theorem range_invariant_witness:
  "set_inv [2, 5, 9]
   \<and> in_range 12 [2, 5, 9]
   \<and> m_breakpoints (updateSidebar (editorWith [2, 5, 9] 6 0 5 20)) = [2, 5]
   \<and> in_range 6 (m_breakpoints (updateSidebar (editorWith [2, 5, 9] 6 0 5 20)))
   \<and> in_range 10 [2, 5, 9]
   \<and> m_breakpoints (breakpointClick 67 0 (editorWith [2, 5, 9] 10 0 5 20)) = [2, 3, 5, 9]
   \<and> in_range 10 (m_breakpoints (breakpointClick 67 0 (editorWith [2, 5, 9] 10 0 5 20)))
   \<and> set_inv (m_breakpoints (breakpointClick 67 0 (editorWith [2, 5, 9] 10 0 5 20)))"
proof -
  let ?E = "editorWith [2, 5, 9] 6 0 5 20"
  let ?F = "editorWith [2, 5, 9] 10 0 5 20"
  have invE: "set_inv (m_breakpoints ?E)" by (simp add: editorWith_def set_inv_def)
  have invF: "set_inv (m_breakpoints ?F)" by (simp add: editorWith_def set_inv_def)
  have r12: "in_range 12 (m_breakpoints ?E)" by (simp add: editorWith_def in_range_def)
  have r10: "in_range (blockCount ?F) (m_breakpoints ?F)"
    by (simp add: editorWith_def in_range_def)
  have val: "m_breakpoints (updateSidebar ?E) = [2, 5]"
    by (simp add: updateSidebar_def editorWith_def removeStale.simps)
  have bc: "blockCount (updateSidebar ?E) = 6" by (simp add: updateSidebar_def editorWith_def)
  from range_invariant [OF invE, of 12] r12 bc
  have a: "in_range 6 (m_breakpoints (updateSidebar ?E))" by simp
  have m: "m_breakpoints (breakpointClick 67 0 ?F) = [2, 3, 5, 9]"
    using breakpointClick_editorWith(2)
      [where f = 0 and n = 10 and h = 20 and y = 67 and c = 5 and k = 3
         and bps = "[2, 5, 9]" and fs = 0]
    by (simp add: scenario_simps)
  have "blockCount (breakpointClick 67 0 ?F) = 10"
    using breakpointClick_cases [of 67 0 ?F] by (auto simp: editorWith_def repaint_def)
  with range_invariant [OF invF, where y = 67 and fs = 0] r10
  have b: "in_range 10 (m_breakpoints (breakpointClick 67 0 ?F))
           \<and> set_inv (m_breakpoints (breakpointClick 67 0 ?F))" by simp
  from invE r12 r10 val a m b show ?thesis by (simp add: editorWith_def)
qed

subsection \<open>From a pixel to a line\<close>

lemma c_div_scenarios: "c_div (47 - 5) 20 = 2 \<and> c_div (34 + 4) 15 = 2"
  by (simp add: c_div_def)

text \<open>Where the quotient does not fit in an \<^verbatim>\<open>int\<close> the computed index is \<open>INT_MIN\<close>: with
  line height 1 and content offset -1, the click at \<open>y = 2147483647\<close> has the quotient
  2147483648.\<close>

lemma clickIndex_out_of_range:
  "clickIndex (editorWith [] 4 0 (- 1) 1) 2147483647 = INT_MIN"
  by (simp add: clickIndex_def editorWith_def firstVisibleBlock_eq findBlockByNumber_def
      blockBoundingRectHeight_def qreal_sub_def qreal_div_def to_double_numeral to_int_def
      c_trunc_def int32_def INT_MIN_def INT_MAX_def)

text \<open>
  Claim C2. With a line height \<open>h\<close>, a content offset \<open>c\<close> and a click position \<open>y\<close> in
  whole pixels, each in the range of \<^verbatim>\<open>int\<close>, the click is \<open>k\<close> lines below the first
  visible line, where \<open>k\<close> is the integer quotient of \<open>y - c\<close> by \<open>h\<close> when the first
  visible line is line 0 and of \<open>y + c\<close> by \<open>h\<close> otherwise, provided that quotient is in
  the range of \<^verbatim>\<open>int\<close>. The block walked to is the block \<open>k\<close> lines after the first
  visible one when the document has such a line, and the first visible block itself
  when \<open>k\<close> is negative. With first visible line 0, height 20, offset 5 and \<open>y = 47\<close> the
  line is 2; with first visible line 10, height 15, offset 4 and \<open>y = 34\<close> the line is 12
  (in documents that have these lines).
\<close>

theorem pixel_to_line:
  assumes "0 \<le> firstVisibleLine e" and "firstVisibleLine e < blockCount e"
    and "blockHeight e (firstVisibleLine e) = of_int h" and "h \<noteq> 0"
    and "contentOffsetY e = of_int c"
    and "int32 y" and "int32 c" and "int32 h"
    and "k = (if firstVisibleLine e = 0 then c_div (y - c) h else c_div (y + c) h)"
    and "int32 k"
  shows "clickIndex e y = k
       \<and> (0 \<le> k \<and> firstVisibleLine e + k < blockCount e \<longrightarrow>
            clickedBlock e y = Block (firstVisibleLine e + k))
       \<and> (k < 0 \<longrightarrow> clickedBlock e y = Block (firstVisibleLine e))
       \<and> (2 < n \<longrightarrow> clickedBlock (editorWith bps n 0 5 20) 47 = Block 2)
       \<and> (12 < n \<longrightarrow> clickedBlock (editorWith bps n 10 4 15) 34 = Block 12)"
proof -
  have k: "clickIndex e y = k"
    using clickIndex_whole [OF assms(1-8)] assms(9,10) by simp
  have s1: "2 < n \<longrightarrow> clickedBlock (editorWith bps n 0 5 20) 47 = Block 2"
    using breakpointClick_editorWith(1)
      [where f = 0 and n = n and h = 20 and y = 47 and c = 5 and k = 2 and bps = bps]
    by (simp add: int32_numeral c_div_def)
  have s2: "12 < n \<longrightarrow> clickedBlock (editorWith bps n 10 4 15) 34 = Block 12"
    using breakpointClick_editorWith(1)
      [where f = 10 and n = n and h = 15 and y = 34 and c = 4 and k = 2 and bps = bps]
    by (simp add: int32_numeral c_div_def)
  from k assms(1,2) s1 s2 show ?thesis by (auto simp: clickedBlock_eq)
qed

theorem pixel_to_line_witness:
  "blockHeight (editorWith [] 8 3 4 15) 3 = of_int 15
   \<and> contentOffsetY (editorWith [] 8 3 4 15) = of_int 4
   \<and> int32 64 \<and> int32 4 \<and> int32 15
   \<and> c_div (64 + 4) 15 = 4
   \<and> clickIndex (editorWith [] 8 3 4 15) 64 = 4
   \<and> clickedBlock (editorWith [] 8 3 4 15) 64 = Block 7
   \<and> c_div (2 - 30) 15 = - 1
   \<and> clickIndex (editorWith [] 8 0 30 15) 2 = - 1
   \<and> clickedBlock (editorWith [] 8 0 30 15) 2 = Block 0
   \<and> clickedBlock (editorWith [] 3 0 5 20) 47 = Block 2
   \<and> clickedBlock (editorWith [] 13 10 4 15) 34 = Block 12"
proof -
  let ?E = "editorWith [] 8 3 4 15"
  let ?F = "editorWith [] 8 0 30 15"
  have d1: "c_div (64 + 4) 15 = 4" by (simp add: c_div_def)
  have d2: "c_div (2 - 30) 15 = - 1" by (simp add: c_div_def)
  have r: "int32 64 \<and> int32 4 \<and> int32 15 \<and> int32 2 \<and> int32 30 \<and> int32 (- 1)"
    by (simp add: int32_def INT_MIN_def INT_MAX_def)
  have a: "clickIndex ?E 64 = 4 \<and> clickedBlock ?E 64 = Block 7"
    using pixel_to_line [where e = ?E and h = 15 and c = 4 and k = 4 and y = 64 and n = 0
        and bps = "[]"] d1 r
    by (simp add: editorWith_def)
  have b: "clickIndex ?F 2 = - 1 \<and> clickedBlock ?F 2 = Block 0"
    using pixel_to_line [where e = ?F and h = 15 and c = 30 and k = "- 1" and y = 2 and n = 0
        and bps = "[]"] d2 r
    by (simp add: editorWith_def)
  have c: "clickedBlock (editorWith [] 3 0 5 20) 47 = Block 2"
    using pixel_to_line [where e = ?E and h = 15 and c = 4 and k = 4 and y = 64 and n = 3
        and bps = "[]"] d1 r
    by (simp add: editorWith_def)
  have d: "clickedBlock (editorWith [] 13 10 4 15) 34 = Block 12"
    using pixel_to_line [where e = ?E and h = 15 and c = 4 and k = 4 and y = 64 and n = 13
        and bps = "[]"] d1 r
    by (simp add: editorWith_def)
  from a b c d d1 d2 r show ?thesis by (simp add: editorWith_def)
qed

subsection \<open>Totality, and indices outside the document\<close>









end
